theory Spec2Isabelle
  imports Complex_Main
begin

section \<open>Data model\<close>

text \<open>
  Python exceptions that the modelled functions can raise. A function that can raise
  returns \<open>error + 'a\<close>, with \<open>Inl\<close> for the exception.
\<close>

datatype error = IndexError | ValueError | OverflowError | ZeroDivisionError

text \<open>The three cell states are the integer constants of the source.\<close>

definition SUSCEPTIBLE :: int where
  "SUSCEPTIBLE = 0"

definition INFECTED :: int where
  "INFECTED = 1"

definition RECOVERED :: int where
  "RECOVERED = 2"

type_synonym grid = "int list"

section \<open>SIR model\<close>


section \<open>Cellular automaton\<close>

text \<open>
  The calls of \<open>np.random.rand()\<close> are modelled by a sequence \<open>rand\<close> of draws and a
  counter of the draws consumed so far: the k-th call of the run returns \<open>rand k\<close>.
\<close>

definition infected_neighbors :: "grid \<Rightarrow> nat \<Rightarrow> nat \<Rightarrow> nat" where
  "infected_neighbors grid L i =
     (let left_neighbor = grid ! nat ((int i - 1 + int L) mod int L);
          right_neighbor = grid ! ((i + 1) mod L)
      in (if left_neighbor = INFECTED then 1 else 0) + (if right_neighbor = INFECTED then 1 else 0))"

text \<open>The body of the loop over the cells: cell \<open>i\<close> reads \<open>grid\<close> and writes \<open>new_grid\<close>.\<close>

definition update_cell ::
  "grid \<Rightarrow> nat \<Rightarrow> real \<Rightarrow> real \<Rightarrow> real \<Rightarrow> (nat \<Rightarrow> real) \<Rightarrow> nat \<Rightarrow> grid \<times> nat \<Rightarrow> grid \<times> nat" where
  "update_cell grid L prevalence gamma_ca k_infection rand i st =
     (case st of (new_grid, n) \<Rightarrow>
        if grid ! i = SUSCEPTIBLE then
          (if infected_neighbors grid L i > 0 then
             (let prob_infection = k_infection * real (infected_neighbors grid L i) * prevalence
              in if rand n < prob_infection then (new_grid[i := INFECTED], Suc n)
                 else (new_grid, Suc n))
           else (new_grid, n))
        else if grid ! i = INFECTED then
          (if rand n < gamma_ca then (new_grid[i := RECOVERED], Suc n) else (new_grid, Suc n))
        else (new_grid, n))"

text \<open>One synchronous update: \<open>new_grid = grid.copy()\<close>, then the loop over \<open>range(L)\<close>.\<close>

definition ca_step ::
  "nat \<Rightarrow> real \<Rightarrow> real \<Rightarrow> real \<Rightarrow> (nat \<Rightarrow> real) \<Rightarrow> grid \<times> nat \<Rightarrow> grid \<times> nat" where
  "ca_step L prevalence gamma_ca k_infection rand st =
     (case st of (grid, n) \<Rightarrow>
        fold (update_cell grid L prevalence gamma_ca k_infection rand) [0..<L] (grid, n))"

text \<open>
  The loop over \<open>t\<close>. The state is the current grid, the history and the draw counter.
  \<open>I_sir[t]\<close> raises when \<open>t\<close> is out of range (the indexing of Python; the compiled
  function does not check bounds, and a read out of range is then undefined).
\<close>

fun ca_loop ::
  "nat \<Rightarrow> real list \<Rightarrow> real \<Rightarrow> real \<Rightarrow> (nat \<Rightarrow> real) \<Rightarrow> nat list \<Rightarrow>
     grid \<times> grid list \<times> nat \<Rightarrow> error + grid \<times> grid list \<times> nat" where
  "ca_loop L I_sir gamma_ca k_infection rand [] st = Inr st"
| "ca_loop L I_sir gamma_ca k_infection rand (t # ts) (grid, grid_history, n) =
     (if t < length I_sir then
        (let prevalence = I_sir ! t;
             (new_grid, n') = ca_step L prevalence gamma_ca k_infection rand (grid, n)
         in ca_loop L I_sir gamma_ca k_infection rand ts
              (new_grid, grid_history[t := new_grid], n'))
      else Inl IndexError)"

text \<open>
  \<open>run_ca_simulation\<close>. Writing \<open>grid[L // 2]\<close> on an empty grid and row 0 of a history
  without rows are out of range.
\<close>

definition run_ca_simulation ::
  "nat \<Rightarrow> nat \<Rightarrow> real list \<Rightarrow> real \<Rightarrow> real \<Rightarrow> (nat \<Rightarrow> real) \<Rightarrow> error + grid list" where
  "run_ca_simulation L time_steps I_sir gamma_ca k_infection rand =
     (if L = 0 then Inl IndexError
      else
        let grid = (replicate L SUSCEPTIBLE)[L div 2 := INFECTED];
            grid_history = replicate time_steps (replicate L 0)
        in if time_steps = 0 then Inl IndexError
           else
             (case ca_loop L I_sir gamma_ca k_infection rand [1..<time_steps]
                     (grid, grid_history[0 := grid], 0) of
                Inl e \<Rightarrow> Inl e
              | Inr (g, h, n) \<Rightarrow> Inr h))"

section \<open>Box-counting dimension\<close>

text \<open>
  \<open>int(np.log2(L))\<close> for a positive \<open>L\<close> is the integer part of the binary logarithm;
  \<open>np.log2(0)\<close> is minus infinity and its conversion raises. The model takes the exact
  integer part: the rounding of the floating-point logarithm is not modelled.
\<close>

fun log2_floor :: "nat \<Rightarrow> nat" where
  "log2_floor n = (if n < 2 then 0 else Suc (log2_floor (n div 2)))"

declare log2_floor.simps [simp del]

definition max_power_of :: "nat \<Rightarrow> error + nat" where
  "max_power_of L = (if L = 0 then Inl OverflowError else Inr (log2_floor L))"

definition box_sizes_of :: "nat \<Rightarrow> nat \<Rightarrow> nat list" where
  "box_sizes_of max_power L = map (\<lambda>i. 2 ^ i) (filter (\<lambda>i. 2 ^ i < L) [0..<max_power])"

text \<open>\<open>range(0, L, size)\<close> for a positive step \<open>bsize\<close> (the source's \<open>size\<close>).\<close>

definition range_step :: "nat \<Rightarrow> nat \<Rightarrow> nat list" where
  "range_step L bsize = map (\<lambda>j. j * bsize) [0..<(L + bsize - 1) div bsize]"

definition count_boxes :: "grid \<Rightarrow> nat \<Rightarrow> nat" where
  "count_boxes grid_state bsize =
     length (filter (\<lambda>i. \<exists>x \<in> set (take bsize (drop i grid_state)). x > 0)
               (range_step (length grid_state) bsize))"

text \<open>
  Modelled from the spec: the external simple-linear-regression routine
  (\<open>scipy.stats.linregress\<close>), which is not part of the repository. It returns the
  least-squares slope of \<open>y\<close> on \<open>x\<close> over exact reals, raises \<open>ValueError\<close> on empty or
  mismatched inputs and when all \<open>x\<close> values are identical, and yields a slope that is
  not a number for a single point.
\<close>

datatype slope = Slope real | NaN

definition mean :: "real list \<Rightarrow> real" where
  "mean xs = sum_list xs / real (length xs)"

definition linregress :: "real list \<Rightarrow> real list \<Rightarrow> error + slope" where
  "linregress xs ys =
     (if xs = [] \<or> ys = [] then Inl ValueError
      else if length xs \<noteq> length ys then Inl ValueError
      else if length xs > 1 \<and> Max (set xs) = Min (set xs) then Inl ValueError
      else
        let n = real (length xs);
            xmean = mean xs;
            ymean = mean ys;
            ssxm = sum_list (map (\<lambda>x. (x - xmean) * (x - xmean)) xs) / n;
            ssxym = sum_list (map (\<lambda>(x, y). (x - xmean) * (y - ymean)) (zip xs ys)) / n
        in if ssxm = 0 then Inr NaN else Inr (Slope (ssxym / ssxm)))"

text \<open>The values of the source's local variables, as functions of what they are computed from.\<close>

definition active_cells_indices :: "grid \<Rightarrow> nat list" where
  "active_cells_indices grid_state = filter (\<lambda>i. grid_state ! i > 0) [0..<length grid_state]"

definition valid_indices_of :: "nat list \<Rightarrow> nat list" where
  "valid_indices_of box_counts = filter (\<lambda>i. box_counts ! i > 0) [0..<length box_counts]"

definition log_box_sizes_inv :: "nat list \<Rightarrow> nat list \<Rightarrow> real list" where
  "log_box_sizes_inv box_sizes valid_indices =
     (let box_sizes_valid = map (\<lambda>i. box_sizes ! i) valid_indices
      in map (\<lambda>s. ln (1 / real s)) box_sizes_valid)"

definition log_counts :: "nat list \<Rightarrow> nat list \<Rightarrow> real list" where
  "log_counts box_counts valid_indices =
     (let box_counts_valid = map (\<lambda>i. box_counts ! i) valid_indices
      in map (\<lambda>c. ln (real c)) box_counts_valid)"

text \<open>
  The regression step: \<open>ValueError\<close> is caught and mapped to 0, any other exception
  propagates, and a slope that is not a number is mapped to 0.
\<close>

definition fit_slope :: "real list \<Rightarrow> real list \<Rightarrow> error + real" where
  "fit_slope xs ys =
     (case linregress xs ys of
        Inl e \<Rightarrow> if e = ValueError then Inr 0 else Inl e
      | Inr sl \<Rightarrow> (case sl of NaN \<Rightarrow> Inr 0 | Slope s \<Rightarrow> Inr s))"

definition calculate_box_dimension :: "grid \<Rightarrow> error + real" where
  "calculate_box_dimension grid_state =
     (if length (active_cells_indices grid_state) < 2 then Inr 0
      else
        let L = length grid_state
        in case max_power_of L of
             Inl e \<Rightarrow> Inl e
           | Inr max_power \<Rightarrow>
               let box_sizes = box_sizes_of max_power L
               in if box_sizes = [] then Inr 0
                  else
                    let box_counts = map (count_boxes grid_state) box_sizes;
                        valid_indices = valid_indices_of box_counts
                    in if length valid_indices < 2 then Inr 0
                       else fit_slope (log_box_sizes_inv box_sizes valid_indices)
                              (log_counts box_counts valid_indices))"

text \<open>The box sizes generated for a grid of length \<open>L\<close> that reaches the generation.\<close>

definition box_sizes :: "nat \<Rightarrow> nat list" where
  "box_sizes L = box_sizes_of (log2_floor L) L"

section \<open>Box sizes\<close>

lemma log2_floor_bounds: "0 < n \<Longrightarrow> 2 ^ log2_floor n \<le> n \<and> n < 2 ^ Suc (log2_floor n)"
proof (induction n rule: log2_floor.induct)
  case (1 n)
  show ?case
  proof (cases "n < 2")
    case True
    with 1 show ?thesis by (simp add: log2_floor.simps[of n])
  next
    case False
    then have "0 < n div 2" by simp
    with 1 False have ih: "2 ^ log2_floor (n div 2) \<le> n div 2 \<and> n div 2 < 2 ^ Suc (log2_floor (n div 2))"
      by simp
    have eq: "log2_floor n = Suc (log2_floor (n div 2))" using False by (simp add: log2_floor.simps[of n])
    show ?thesis unfolding eq using ih by simp linarith
  qed
qed

lemma log2_floor_power: "log2_floor (2 ^ k) = k"
  by (induction k) (simp_all add: log2_floor.simps[of "2 * 2 ^ _"] log2_floor.simps[of "Suc 0"])

lemma box_sizes_eq: "box_sizes L = map (\<lambda>i. 2 ^ i) [0..<log2_floor L]"
proof (cases "L = 0")
  case True
  then show ?thesis by (simp add: box_sizes_def box_sizes_of_def log2_floor.simps[of 0])
next
  case False
  then have "2 ^ log2_floor L \<le> L" using log2_floor_bounds[of L] by simp
  have "\<And>i. i < log2_floor L \<Longrightarrow> (2::nat) ^ i < L"
  proof -
    fix i assume "i < log2_floor L"
    then have "(2::nat) ^ i < 2 ^ log2_floor L" by simp
    with \<open>2 ^ log2_floor L \<le> L\<close> show "(2::nat) ^ i < L" by linarith
  qed
  then have "filter (\<lambda>i. (2::nat) ^ i < L) [0..<log2_floor L] = [0..<log2_floor L]"
    by (simp add: filter_id_conv)
  then show ?thesis by (simp add: box_sizes_def box_sizes_of_def)
qed

lemma box_sizes_set: "set (box_sizes L) = {s. (\<exists>i. s = 2 ^ i) \<and> 2 * s \<le> L}"
proof (cases "L = 0")
  case True
  then show ?thesis by (auto simp: box_sizes_eq log2_floor.simps[of 0])
next
  case False
  then have b: "2 ^ log2_floor L \<le> L" "L < 2 ^ Suc (log2_floor L)"
    using log2_floor_bounds[of L] by simp_all
  have "\<And>i. (i < log2_floor L) = (2 * (2::nat) ^ i \<le> L)"
  proof
    fix i assume "i < log2_floor L"
    then have "Suc i \<le> log2_floor L" by simp
    then have "(2::nat) ^ Suc i \<le> 2 ^ log2_floor L" by (rule power_increasing) simp
    with b(1) show "2 * (2::nat) ^ i \<le> L" by simp
  next
    fix i assume "2 * (2::nat) ^ i \<le> L"
    moreover have "L < 2 * 2 ^ log2_floor L" using b(2) by simp
    ultimately have "(2::nat) ^ i < 2 ^ log2_floor L" by linarith
    then show "i < log2_floor L" by simp
  qed
  then have iff: "\<And>i. (i < log2_floor L) = (2 * (2::nat) ^ i \<le> L)" .
  show ?thesis
  proof (rule set_eqI)
    fix s
    have "s \<in> set (box_sizes L) \<longleftrightarrow> (\<exists>i. i < log2_floor L \<and> s = 2 ^ i)"
      unfolding box_sizes_eq by (simp add: image_iff Bex_def conj_commute)
    also have "\<dots> \<longleftrightarrow> (\<exists>i. s = 2 ^ i \<and> 2 * s \<le> L)"
      unfolding iff by blast
    finally show "s \<in> set (box_sizes L) \<longleftrightarrow> s \<in> {s. (\<exists>i. s = 2 ^ i) \<and> 2 * s \<le> L}"
      by simp
  qed
qed

lemma box_sizes_pow2: "set (box_sizes (2 ^ k)) = {s. (\<exists>i. s = 2 ^ i) \<and> s < 2 ^ k}"
proof -
  have "\<And>i. ((2::nat) ^ i < 2 ^ k) = (i < k)" by simp
  then show ?thesis by (auto simp: box_sizes_eq log2_floor_power)
qed

text \<open>
  C1 (amended). The box sizes generated for a grid of length \<open>L\<close> are
  \<open>2^0, ..., 2^(m - 1)\<close> with \<open>m\<close> the integer part of the binary logarithm of \<open>L\<close>:
  exactly the powers of two \<open>s\<close> with \<open>2 * s \<le> L\<close>. When \<open>L\<close> is itself a power of two
  these are all the powers of two strictly below \<open>L\<close>; for \<open>L = 512\<close> they are
  1, 2, 4, 8, 16, 32, 64, 128, 256.
\<close>

theorem box_sizes_powers_of_two:
  "box_sizes L = map (\<lambda>i. 2 ^ i) [0..<log2_floor L] \<and>
   set (box_sizes L) = {s. (\<exists>i. s = 2 ^ i) \<and> 2 * s \<le> L} \<and>
   (L = 2 ^ k \<longrightarrow> set (box_sizes L) = {s. (\<exists>i. s = 2 ^ i) \<and> s < L}) \<and>
   box_sizes 512 = [1, 2, 4, 8, 16, 32, 64, 128, 256]"
proof -
  have "box_sizes 512 = [1, 2, 4, 8, 16, 32, 64, 128, 256]" by code_simp
  then show ?thesis using box_sizes_eq box_sizes_set box_sizes_pow2 by blast
qed

theorem box_sizes_powers_of_two_witness:
  "(4::nat) = 2 ^ 2 \<and> set (box_sizes 4) = {s. (\<exists>i. s = 2 ^ i) \<and> s < 4}"
proof -
  have h: "(4::nat) = 2 ^ 2" by simp
  with box_sizes_powers_of_two [of 4 2] show ?thesis by blast
qed

text \<open>
  C1 as stated fails when \<open>L\<close> is not a power of two: for \<open>L = 5\<close> the power of two 4 is
  strictly below \<open>L\<close> and is not generated.
\<close>

theorem box_sizes_all_powers_counterexample:
  "(2::nat) ^ 2 < 5 \<and> 2 ^ 2 \<notin> set (box_sizes 5)"
  by code_simp

section \<open>SIR derivatives\<close>






section \<open>Cellular automaton: one update\<close>

text \<open>The value a cell takes in one update, given its draw.\<close>

lemma update_cell_length:
  "length (fst (update_cell grid L p ga k rand i (ng, c))) = length ng"
  by (simp add: update_cell_def Let_def)

lemma update_cell_other:
  "j \<noteq> i \<Longrightarrow> fst (update_cell grid L p ga k rand i (ng, c)) ! j = ng ! j"
  by (simp add: update_cell_def Let_def)

lemma update_cell_same:
  "i < length ng \<Longrightarrow>
   fst (update_cell grid L p ga k rand i (ng, c)) ! i =
     (if grid ! i = SUSCEPTIBLE then
        (if infected_neighbors grid L i > 0 \<and>
            rand c < k * real (infected_neighbors grid L i) * p then INFECTED else ng ! i)
      else if grid ! i = INFECTED then (if rand c < ga then RECOVERED else ng ! i)
      else ng ! i)"
  by (simp add: update_cell_def Let_def)

lemma fold_update_cell:
  "m \<le> length grid \<Longrightarrow>
   length (fst (fold (update_cell grid L p ga k rand) [0..<m] (grid, n))) = length grid \<and>
   (\<forall>j. m \<le> j \<longrightarrow> fst (fold (update_cell grid L p ga k rand) [0..<m] (grid, n)) ! j = grid ! j) \<and>
   (\<forall>j<m. \<exists>c. fst (fold (update_cell grid L p ga k rand) [0..<m] (grid, n)) ! j =
      fst (update_cell grid L p ga k rand j (grid, c)) ! j)"
proof (induction m)
  case 0
  then show ?case by simp
next
  case (Suc m)
  obtain ng c where f: "fold (update_cell grid L p ga k rand) [0..<m] (grid, n) = (ng, c)"
    by (cases "fold (update_cell grid L p ga k rand) [0..<m] (grid, n)")
  from Suc have ih: "length ng = length grid" "\<And>j. m \<le> j \<Longrightarrow> ng ! j = grid ! j"
    "\<And>j. j < m \<Longrightarrow> \<exists>c. ng ! j = fst (update_cell grid L p ga k rand j (grid, c)) ! j"
    by (simp_all add: f)
  have s: "fold (update_cell grid L p ga k rand) [0..<Suc m] (grid, n) =
             update_cell grid L p ga k rand m (ng, c)"
    by (simp add: f)
  have m: "m < length ng" "m < length grid" using Suc.prems ih(1) by simp_all
  have a: "length (fst (update_cell grid L p ga k rand m (ng, c))) = length grid"
    by (simp add: update_cell_length ih(1))
  have b: "\<And>j. Suc m \<le> j \<Longrightarrow> fst (update_cell grid L p ga k rand m (ng, c)) ! j = grid ! j"
    by (simp add: update_cell_other ih(2))
  have d: "\<And>j. j < Suc m \<Longrightarrow>
      \<exists>c'. fst (update_cell grid L p ga k rand m (ng, c)) ! j =
             fst (update_cell grid L p ga k rand j (grid, c')) ! j"
  proof -
    fix j assume j: "j < Suc m"
    show "\<exists>c'. fst (update_cell grid L p ga k rand m (ng, c)) ! j =
             fst (update_cell grid L p ga k rand j (grid, c')) ! j"
    proof (cases "j = m")
      case True
      have "fst (update_cell grid L p ga k rand m (ng, c)) ! m =
            fst (update_cell grid L p ga k rand m (grid, c)) ! m"
        using m ih(2)[of m] by (simp add: update_cell_same)
      with True show ?thesis by blast
    next
      case False
      with j have "j < m" by simp
      with ih(3)[of j] False show ?thesis by (simp add: update_cell_other)
    qed
  qed
  show ?case unfolding s using a b d by blast
qed

lemma ca_step_cells:
  assumes "length grid = L"
  shows "length (fst (ca_step L p ga k rand (grid, n))) = L \<and>
         (\<forall>j<L. \<exists>c. fst (ca_step L p ga k rand (grid, n)) ! j =
            fst (update_cell grid L p ga k rand j (grid, c)) ! j)"
  using fold_update_cell [of L grid L p ga k rand n] assms by (simp add: ca_step_def)

section \<open>Cellular automaton: the history\<close>

lemma ca_loop_rows:
  "b \<le> length I_sir \<Longrightarrow> b \<le> length h \<Longrightarrow> 0 < a \<Longrightarrow> h ! (a - 1) = g \<Longrightarrow>
   \<exists>g' h' n'. ca_loop L I_sir ga k rand [a..<b] (g, h, n) = Inr (g', h', n') \<and>
     length h' = length h \<and>
     (\<forall>t<a. h' ! t = h ! t) \<and>
     (\<forall>t. a \<le> t \<and> t < b \<longrightarrow>
        (\<exists>c. h' ! t = fst (ca_step L (I_sir ! t) ga k rand (h' ! (t - 1), c))))"
proof (induction "b - a" arbitrary: a g h n)
  case 0
  then have ba: "b \<le> a" by simp
  then have e: "ca_loop L I_sir ga k rand [a..<b] (g, h, n) = Inr (g, h, n)" by simp
  have "\<forall>t. a \<le> t \<and> t < b \<longrightarrow>
        (\<exists>c. h ! t = fst (ca_step L (I_sir ! t) ga k rand (h ! (t - 1), c)))"
  proof (intro allI impI)
    fix t assume "a \<le> t \<and> t < b"
    with ba have False by linarith
    then show "\<exists>c. h ! t = fst (ca_step L (I_sir ! t) ga k rand (h ! (t - 1), c))" ..
  qed
  then show ?case unfolding e by blast
next
  case (Suc d)
  then have ab: "a < b" by simp
  then have u: "[a..<b] = a # [Suc a..<b]" by (simp add: upt_conv_Cons)
  obtain ng n1 where st: "ca_step L (I_sir ! a) ga k rand (g, n) = (ng, n1)"
    by (cases "ca_step L (I_sir ! a) ga k rand (g, n)")
  have al: "a < length I_sir" "a < length h" using ab Suc.prems by simp_all
  have e: "ca_loop L I_sir ga k rand [a..<b] (g, h, n) =
           ca_loop L I_sir ga k rand [Suc a..<b] (ng, h[a := ng], n1)"
    unfolding u using al st by simp
  have d: "d = b - Suc a" using Suc.hyps(2) by simp
  have p1: "b \<le> length (h[a := ng])" using Suc.prems by simp
  have p2: "(h[a := ng]) ! (Suc a - 1) = ng" using al by simp
  from Suc.hyps(1) [OF d Suc.prems(1) p1 _ p2, of n1]
  obtain g' h' n' where r:
    "ca_loop L I_sir ga k rand [Suc a..<b] (ng, h[a := ng], n1) = Inr (g', h', n')"
    "length h' = length (h[a := ng])"
    "\<And>t. t < Suc a \<Longrightarrow> h' ! t = (h[a := ng]) ! t"
    "\<And>t. Suc a \<le> t \<Longrightarrow> t < b \<Longrightarrow>
        \<exists>c. h' ! t = fst (ca_step L (I_sir ! t) ga k rand (h' ! (t - 1), c))"
    by auto
  have q1: "length h' = length h" using r(2) by simp
  have q2: "\<And>t. t < a \<Longrightarrow> h' ! t = h ! t" using r(3) by simp
  have ha: "h' ! a = ng" using r(3)[of a] al by simp
  have hp: "h' ! (a - 1) = g" using q2[of "a - 1"] Suc.prems(3,4) by simp
  have q3: "\<And>t. a \<le> t \<Longrightarrow> t < b \<Longrightarrow>
        \<exists>c. h' ! t = fst (ca_step L (I_sir ! t) ga k rand (h' ! (t - 1), c))"
  proof -
    fix t assume t: "a \<le> t" "t < b"
    show "\<exists>c. h' ! t = fst (ca_step L (I_sir ! t) ga k rand (h' ! (t - 1), c))"
    proof (cases "t = a")
      case True
      have "h' ! a = fst (ca_step L (I_sir ! a) ga k rand (h' ! (a - 1), n))"
        using ha hp st by simp
      with True show ?thesis by blast
    next
      case False
      with t have "Suc a \<le> t" by simp
      with r(4) t(2) show ?thesis by blast
    qed
  qed
  show ?case unfolding e using r(1) q1 q2 q3 by blast
qed

lemma run_ca_simulation_rows:
  assumes "0 < L" "0 < time_steps" "time_steps \<le> length I_sir"
  shows "\<exists>h. run_ca_simulation L time_steps I_sir ga k rand = Inr h \<and>
           length h = time_steps \<and>
           h ! 0 = (replicate L SUSCEPTIBLE)[L div 2 := INFECTED] \<and>
           (\<forall>t. 0 < t \<and> t < time_steps \<longrightarrow>
              (\<exists>c. h ! t = fst (ca_step L (I_sir ! t) ga k rand (h ! (t - 1), c))))"
proof -
  let ?g = "(replicate L SUSCEPTIBLE)[L div 2 := INFECTED]"
  let ?h = "(replicate time_steps (replicate L (0::int)))[0 := ?g]"
  have "time_steps \<le> length ?h" by simp
  moreover have "?h ! (1 - 1) = ?g" using assms(2) by simp
  ultimately obtain g' h' n' where r:
    "ca_loop L I_sir ga k rand [1..<time_steps] (?g, ?h, 0) = Inr (g', h', n')"
    "length h' = length ?h"
    "\<forall>t<1. h' ! t = ?h ! t"
    "\<forall>t. 1 \<le> t \<and> t < time_steps \<longrightarrow>
        (\<exists>c. h' ! t = fst (ca_step L (I_sir ! t) ga k rand (h' ! (t - 1), c)))"
    using ca_loop_rows [OF assms(3), of ?h 1 ?g L ga k rand 0] by auto
  have "run_ca_simulation L time_steps I_sir ga k rand = Inr h'"
    using assms(1,2) r(1) by (simp add: run_ca_simulation_def Let_def)
  moreover have "length h' = time_steps" using r(2) by simp
  moreover have "h' ! 0 = ?g" using r(3) assms(2) by simp
  moreover have "\<forall>t. 0 < t \<and> t < time_steps \<longrightarrow>
              (\<exists>c. h' ! t = fst (ca_step L (I_sir ! t) ga k rand (h' ! (t - 1), c)))"
    using r(4) by simp
  ultimately show ?thesis by blast
qed

text \<open>A run that returns a history had non-empty dimensions and enough prevalences.\<close>

lemma ca_loop_short:
  "a < b \<Longrightarrow> length I_sir < b \<Longrightarrow> \<exists>e. ca_loop L I_sir ga k rand [a..<b] st = Inl e"
proof (induction "b - a" arbitrary: a st)
  case 0
  then show ?case by simp
next
  case (Suc d)
  then have u: "[a..<b] = a # [Suc a..<b]" by (simp add: upt_conv_Cons)
  obtain g h n where s: "st = (g, h, n)" by (cases st)
  show ?case
  proof (cases "a < length I_sir")
    case False
    then show ?thesis unfolding u s by simp
  next
    case True
    with Suc.prems have "Suc a < b" by simp
    moreover have "d = b - Suc a" using Suc.hyps(2) by simp
    ultimately have "\<And>st'. \<exists>e. ca_loop L I_sir ga k rand [Suc a..<b] st' = Inl e"
      using Suc.hyps(1) Suc.prems(2) by blast
    then show ?thesis unfolding u s using True by (simp add: Let_def split: prod.splits)
  qed
qed

lemma run_ca_simulation_returns:
  "(\<exists>h. run_ca_simulation L time_steps I_sir ga k rand = Inr h) \<longleftrightarrow>
     0 < L \<and> 0 < time_steps \<and> (time_steps = 1 \<or> time_steps \<le> length I_sir)"
proof
  assume "\<exists>h. run_ca_simulation L time_steps I_sir ga k rand = Inr h"
  then obtain h where h: "run_ca_simulation L time_steps I_sir ga k rand = Inr h" ..
  then have p: "0 < L" "0 < time_steps"
    by (auto simp: run_ca_simulation_def Let_def split: if_splits)
  have "time_steps = 1 \<or> time_steps \<le> length I_sir"
  proof (rule ccontr)
    assume "\<not> ?thesis"
    then have "1 < time_steps" "length I_sir < time_steps" using p by simp_all
    from ca_loop_short [OF this]
    obtain e where "ca_loop L I_sir ga k rand [1..<time_steps]
        ((replicate L SUSCEPTIBLE)[L div 2 := INFECTED],
         (replicate time_steps (replicate L 0))[0 := (replicate L SUSCEPTIBLE)[L div 2 := INFECTED]], 0) = Inl e"
      by blast
    with h p show False by (simp add: run_ca_simulation_def Let_def)
  qed
  with p show "0 < L \<and> 0 < time_steps \<and> (time_steps = 1 \<or> time_steps \<le> length I_sir)" by simp
next
  assume a: "0 < L \<and> 0 < time_steps \<and> (time_steps = 1 \<or> time_steps \<le> length I_sir)"
  show "\<exists>h. run_ca_simulation L time_steps I_sir ga k rand = Inr h"
  proof (cases "time_steps = 1")
    case True
    with a show ?thesis by (simp add: run_ca_simulation_def Let_def)
  next
    case False
    with a run_ca_simulation_rows [of L time_steps I_sir ga k rand] show ?thesis by blast
  qed
qed

lemma ca_step_length:
  "length grid = L \<Longrightarrow> length (fst (ca_step L p ga k rand (grid, n))) = L"
  using ca_step_cells by blast

lemma ca_step_cell:
  assumes "length grid = L" "j < L"
  shows "\<exists>c. fst (ca_step L p ga k rand (grid, n)) ! j =
     (if grid ! j = SUSCEPTIBLE then
        (if infected_neighbors grid L j > 0 \<and>
            rand c < k * real (infected_neighbors grid L j) * p then INFECTED else grid ! j)
      else if grid ! j = INFECTED then (if rand c < ga then RECOVERED else grid ! j)
      else grid ! j)"
proof -
  from ca_step_cells [OF assms(1), of p ga k rand n] assms(2)
  obtain c where "fst (ca_step L p ga k rand (grid, n)) ! j =
            fst (update_cell grid L p ga k rand j (grid, c)) ! j"
    by blast
  then show ?thesis using assms by (auto simp: update_cell_same)
qed

lemma ca_step_transition:
  assumes "length grid = L" "j < L"
  shows "(grid ! j = SUSCEPTIBLE \<longrightarrow>
            fst (ca_step L p ga k rand (grid, n)) ! j \<in> {SUSCEPTIBLE, INFECTED}) \<and>
         (grid ! j = INFECTED \<longrightarrow>
            fst (ca_step L p ga k rand (grid, n)) ! j \<in> {INFECTED, RECOVERED}) \<and>
         (grid ! j \<noteq> SUSCEPTIBLE \<and> grid ! j \<noteq> INFECTED \<longrightarrow>
            fst (ca_step L p ga k rand (grid, n)) ! j = grid ! j)"
  using ca_step_cell [OF assms, of p ga k rand n]
  by (auto simp: SUSCEPTIBLE_def INFECTED_def RECOVERED_def split: if_splits)

lemma ca_step_mono:
  assumes "length grid = L" "j < L"
  shows "grid ! j \<le> fst (ca_step L p ga k rand (grid, n)) ! j"
  using ca_step_transition [OF assms, of p ga k rand n]
  by (auto simp: SUSCEPTIBLE_def INFECTED_def RECOVERED_def)

lemma ca_step_recovered:
  assumes "length grid = L" "j < L" "grid ! j = RECOVERED"
  shows "fst (ca_step L p ga k rand (grid, n)) ! j = RECOVERED"
  using ca_step_transition [OF assms(1,2), of p ga k rand n] assms(3)
  by (auto simp: SUSCEPTIBLE_def INFECTED_def RECOVERED_def)

lemma ca_step_forced:
  assumes "length grid = L" "j < L" "grid ! j = SUSCEPTIBLE"
    and "0 < infected_neighbors grid L j"
    and "1 \<le> k * real (infected_neighbors grid L j) * p"
    and "\<And>c. rand c < 1"
  shows "fst (ca_step L p ga k rand (grid, n)) ! j = INFECTED"
proof -
  from ca_step_cell [OF assms(1,2), of p ga k rand n] assms(3,4)
  obtain c where c: "fst (ca_step L p ga k rand (grid, n)) ! j =
      (if rand c < k * real (infected_neighbors grid L j) * p then INFECTED else grid ! j)"
    by auto
  have "rand c < k * real (infected_neighbors grid L j) * p"
    using assms(5) assms(6)[of c] by linarith
  with c show ?thesis by simp
qed

text \<open>The history of a run that returns: its rows, one update apart.\<close>

lemma run_history:
  assumes "run_ca_simulation L time_steps I_sir ga k rand = Inr h"
  shows "0 < L \<and> length h = time_steps \<and> 0 < time_steps \<and>
         h ! 0 = (replicate L SUSCEPTIBLE)[L div 2 := INFECTED] \<and>
         (\<forall>t. Suc t < time_steps \<longrightarrow>
            (\<exists>c. h ! Suc t = fst (ca_step L (I_sir ! Suc t) ga k rand (h ! t, c))))"
proof -
  from assms run_ca_simulation_returns [of L time_steps I_sir ga k rand]
  have p: "0 < L" "0 < time_steps" "time_steps = 1 \<or> time_steps \<le> length I_sir" by blast+
  show ?thesis
  proof (cases "time_steps = 1")
    case True
    with assms p(1) have "h = [(replicate L SUSCEPTIBLE)[L div 2 := INFECTED]]"
      by (simp add: run_ca_simulation_def Let_def)
    with True p(1) show ?thesis by simp
  next
    case False
    with p have "time_steps \<le> length I_sir" by simp
    from run_ca_simulation_rows [OF p(1,2) this, of ga k rand] assms
    have r: "length h = time_steps" "h ! 0 = (replicate L SUSCEPTIBLE)[L div 2 := INFECTED]"
      "\<And>t. 0 < t \<and> t < time_steps \<Longrightarrow>
              (\<exists>c. h ! t = fst (ca_step L (I_sir ! t) ga k rand (h ! (t - 1), c)))"
      by auto
    have "\<forall>t. Suc t < time_steps \<longrightarrow>
            (\<exists>c. h ! Suc t = fst (ca_step L (I_sir ! Suc t) ga k rand (h ! t, c)))"
      using r(3) by fastforce
    with p r show ?thesis by blast
  qed
qed

lemma run_row_length:
  assumes "run_ca_simulation L time_steps I_sir ga k rand = Inr h"
  shows "t < time_steps \<Longrightarrow> length (h ! t) = L"
proof (induction t)
  case 0
  with run_history [OF assms] show ?case by simp
next
  case (Suc t)
  then have "length (h ! t) = L" by simp
  moreover from run_history [OF assms] Suc.prems
  obtain c where "h ! Suc t = fst (ca_step L (I_sir ! Suc t) ga k rand (h ! t, c))" by blast
  ultimately show ?case by (simp add: ca_step_length)
qed

lemma run_row_values:
  assumes "run_ca_simulation L time_steps I_sir ga k rand = Inr h"
  shows "t < time_steps \<Longrightarrow> i < L \<Longrightarrow> h ! t ! i \<in> {SUSCEPTIBLE, INFECTED, RECOVERED}"
proof (induction t)
  case 0
  with run_history [OF assms] show ?case by (cases "i = L div 2") simp_all
next
  case (Suc t)
  then have v: "h ! t ! i \<in> {SUSCEPTIBLE, INFECTED, RECOVERED}" by simp
  have l: "length (h ! t) = L" using run_row_length [OF assms, of t] Suc.prems by simp
  from run_history [OF assms] Suc.prems
  obtain c where c: "h ! Suc t = fst (ca_step L (I_sir ! Suc t) ga k rand (h ! t, c))" by blast
  from ca_step_transition [OF l Suc.prems(2), of "I_sir ! Suc t" ga k rand c] v
  show ?case unfolding c by auto
qed

lemma run_row_step:
  assumes "run_ca_simulation L time_steps I_sir ga k rand = Inr h" "Suc t < time_steps"
  shows "length (h ! t) = L \<and>
         (\<exists>c. h ! Suc t = fst (ca_step L (I_sir ! Suc t) ga k rand (h ! t, c)))"
  using run_history [OF assms(1)] run_row_length [OF assms(1), of t] assms(2) by simp

section \<open>Cellular automaton: properties of the history\<close>

text \<open>A concrete run: two cells, three steps, every draw 0.\<close>

lemma run_example:
  "run_ca_simulation 2 3 [0, 1, 1] (1 / 2) 1 (\<lambda>n. 0) = Inr [[0, 1], [1, 2], [2, 2]]"
  by (simp add: run_ca_simulation_def ca_step_def update_cell_def infected_neighbors_def
      SUSCEPTIBLE_def INFECTED_def RECOVERED_def Let_def upt_rec numeral_2_eq_2 numeral_3_eq_3)


lemma filter_count_mono:
  "length xs = length ys \<Longrightarrow> (\<forall>i<length xs. P (ys ! i) \<longrightarrow> P (xs ! i)) \<Longrightarrow>
   length (filter P ys) \<le> length (filter P xs)"
proof (induction xs ys rule: list_induct2)
  case Nil
  then show ?case by simp
next
  case (Cons x xs y ys)
  from Cons.prems have h: "P y \<longrightarrow> P x" by auto
  from Cons.prems have "\<forall>i<length xs. P (ys ! i) \<longrightarrow> P (xs ! i)" by fastforce
  with Cons.IH have "length (filter P ys) \<le> length (filter P xs)" by simp
  with h show ?case by simp
qed

lemma initial_row_infected_count:
  "0 < L \<Longrightarrow> length (filter (\<lambda>x. x = INFECTED) ((replicate L SUSCEPTIBLE)[L div 2 := INFECTED])) = 1"
  by (simp add: upd_conv_take_nth_drop SUSCEPTIBLE_def INFECTED_def)

text \<open>
  C5. For \<open>L \<ge> 2\<close> and \<open>time_steps \<ge> 1\<close> the run returns a history whenever the
  prevalence sequence is long enough, and row 0 of every returned history is all
  Susceptible except for exactly one Infected cell, at index \<open>L div 2\<close>, whatever the
  draws and the other parameters.
\<close>

theorem run_ca_simulation_initial_row:
  assumes "2 \<le> L" "1 \<le> time_steps"
  shows "(time_steps = 1 \<or> time_steps \<le> length I_sir \<longrightarrow>
            (\<exists>h. run_ca_simulation L time_steps I_sir gamma_ca k_infection rand = Inr h)) \<and>
         (\<forall>h. run_ca_simulation L time_steps I_sir gamma_ca k_infection rand = Inr h \<longrightarrow>
            h ! 0 = (replicate L SUSCEPTIBLE)[L div 2 := INFECTED] \<and>
            h ! 0 ! (L div 2) = INFECTED \<and>
            (\<forall>i<L. i \<noteq> L div 2 \<longrightarrow> h ! 0 ! i = SUSCEPTIBLE) \<and>
            length (filter (\<lambda>x. x = INFECTED) (h ! 0)) = 1)"
proof (intro conjI allI impI)
  assume "time_steps = 1 \<or> time_steps \<le> length I_sir"
  with assms show "\<exists>h. run_ca_simulation L time_steps I_sir gamma_ca k_infection rand = Inr h"
    by (simp add: run_ca_simulation_returns)
next
  fix h assume "run_ca_simulation L time_steps I_sir gamma_ca k_infection rand = Inr h"
  from run_history [OF this]
  show "h ! 0 = (replicate L SUSCEPTIBLE)[L div 2 := INFECTED]" by simp
  then show "h ! 0 ! (L div 2) = INFECTED" using assms(1) by simp
  from \<open>h ! 0 = _\<close> show "length (filter (\<lambda>x. x = INFECTED) (h ! 0)) = 1"
    using assms(1) by (simp only: initial_row_infected_count)
  fix i assume "i < L" "i \<noteq> L div 2"
  with \<open>h ! 0 = _\<close> show "h ! 0 ! i = SUSCEPTIBLE" by simp
qed

theorem run_ca_simulation_initial_row_witness:
  "(2::nat) \<le> 2 \<and> (1::nat) \<le> 3 \<and>
   run_ca_simulation 2 3 [0, 1, 1] (1 / 2) 1 (\<lambda>n. 0) = Inr [[0, 1], [1, 2], [2, 2]] \<and>
   [[0, 1], [1, 2], [2, 2]] ! 0 = (replicate 2 SUSCEPTIBLE)[2 div 2 := INFECTED] \<and>
   [[0, 1], [1, 2], [2, 2]] ! 0 ! (2 div 2) = INFECTED \<and>
   [[0, 1], [1, 2], [2, 2]] ! 0 ! 0 = SUSCEPTIBLE \<and>
   length (filter (\<lambda>x. x = INFECTED) ([[0, 1], [1, 2], [2, 2]] ! 0)) = 1"
proof -
  have a: "(2::nat) \<le> 2" "(1::nat) \<le> 3" by simp_all
  note th = run_ca_simulation_initial_row [OF a, of "[0, 1, 1]" "1 / 2" 1 "\<lambda>n. 0"]
  from th [THEN conjunct2, THEN spec, THEN mp, OF run_example]
  have "[[0, 1], [1, 2], [2, 2]] ! 0 = (replicate 2 SUSCEPTIBLE)[2 div 2 := INFECTED]"
    "[[0, 1], [1, 2], [2, 2]] ! 0 ! (2 div 2) = INFECTED"
    "\<forall>i<2. i \<noteq> 2 div 2 \<longrightarrow> [[0, 1], [1, 2], [2, 2]] ! 0 ! i = SUSCEPTIBLE"
    "length (filter (\<lambda>x. x = INFECTED) ([[0, 1], [1, 2], [2, 2]] ! 0)) = 1"
    by blast+
  moreover from this(3) [THEN spec, of 0] have "[[0, 1], [1, 2], [2, 2]] ! 0 ! 0 = SUSCEPTIBLE"
    by simp
  ultimately show ?thesis using a run_example by blast
qed

text \<open>
  C6. In every run that returns a history, a cell recorded as Recovered at step \<open>t\<close> is
  Recovered at every later recorded step \<open>t'\<close>, whatever the draws.
\<close>

theorem recovered_absorbing:
  assumes "run_ca_simulation L time_steps I_sir gamma_ca k_infection rand = Inr h"
    and "t < t'" "t' < time_steps" "i < L" "h ! t ! i = RECOVERED"
  shows "h ! t' ! i = RECOVERED"
  using assms(2,3)
proof (induction t')
  case 0
  then show ?case by simp
next
  case (Suc u)
  have r: "h ! u ! i = RECOVERED"
  proof (cases "t = u")
    case True
    with assms(5) show ?thesis by simp
  next
    case False
    with Suc show ?thesis by simp
  qed
  from run_row_step [OF assms(1) Suc.prems(2)]
  obtain c where l: "length (h ! u) = L"
    and c: "h ! Suc u = fst (ca_step L (I_sir ! Suc u) gamma_ca k_infection rand (h ! u, c))"
    by blast
  show ?case unfolding c using l assms(4) r by (rule ca_step_recovered)
qed

theorem recovered_absorbing_witness:
  "run_ca_simulation 2 3 [0, 1, 1] (1 / 2) 1 (\<lambda>n. 0) = Inr [[0, 1], [1, 2], [2, 2]] \<and>
   (1::nat) < 2 \<and> (2::nat) < 3 \<and> (1::nat) < 2 \<and>
   [[0, 1], [1, 2], [2, 2]] ! 1 ! 1 = RECOVERED \<and> [[0, 1], [1, 2], [2, 2]] ! 2 ! 1 = RECOVERED"
proof -
  have a: "(1::nat) < 2" "(2::nat) < 3" by simp_all
  have b: "[[0, 1], [1, 2], [2, 2]] ! 1 ! 1 = RECOVERED" by (simp add: RECOVERED_def)
  from recovered_absorbing [OF run_example a a(1) b] run_example a b show ?thesis by simp
qed

text \<open>
  C7. For \<open>L \<ge> 1\<close>, \<open>time_steps \<ge> 1\<close> and a prevalence sequence with an entry for every
  step, \<open>run_ca_simulation\<close> returns a history of \<open>time_steps\<close> rows of \<open>L\<close> cells whose
  entries are all among Susceptible = 0, Infected = 1 and Recovered = 2, whatever the draws.
\<close>

theorem run_ca_simulation_shape_values:
  assumes "1 \<le> L" "1 \<le> time_steps" "time_steps \<le> length I_sir"
  shows "\<exists>h. run_ca_simulation L time_steps I_sir gamma_ca k_infection rand = Inr h \<and>
           length h = time_steps \<and>
           (\<forall>t<time_steps. length (h ! t) = L \<and> (\<forall>i<L. h ! t ! i \<in> {0, 1, 2})) \<and>
           SUSCEPTIBLE = 0 \<and> INFECTED = 1 \<and> RECOVERED = 2"
proof -
  from assms run_ca_simulation_returns [of L time_steps I_sir gamma_ca k_infection rand]
  obtain h where h: "run_ca_simulation L time_steps I_sir gamma_ca k_infection rand = Inr h"
    by auto
  have "length h = time_steps" using run_history [OF h] by simp
  moreover have "\<forall>t<time_steps. length (h ! t) = L \<and> (\<forall>i<L. h ! t ! i \<in> {0, 1, 2})"
    using run_row_length [OF h] run_row_values [OF h]
    by (simp add: SUSCEPTIBLE_def INFECTED_def RECOVERED_def)
  ultimately show ?thesis using h by (simp add: SUSCEPTIBLE_def INFECTED_def RECOVERED_def)
qed

theorem run_ca_simulation_shape_values_witness:
  "(1::nat) \<le> 2 \<and> (1::nat) \<le> 3 \<and> (3::nat) \<le> length [0, 1, 1 :: real] \<and>
   run_ca_simulation 2 3 [0, 1, 1] (1 / 2) 1 (\<lambda>n. 0) = Inr [[0, 1], [1, 2], [2, 2]] \<and>
   length [[0, 1], [1, 2], [2, 2 :: int]] = 3 \<and>
   length ([[0, 1], [1, 2], [2, 2 :: int]] ! 1) = 2 \<and>
   [[0, 1], [1, 2], [2, 2 :: int]] ! 1 ! 0 \<in> {0, 1, 2}"
proof -
  have a: "(1::nat) \<le> 2" "(1::nat) \<le> 3" "(3::nat) \<le> length [0, 1, 1 :: real]" by simp_all
  from run_ca_simulation_shape_values [OF a, of "1 / 2" 1 "\<lambda>n. 0"]
  obtain h where h: "run_ca_simulation 2 3 [0, 1, 1] (1 / 2) 1 (\<lambda>n. 0) = Inr h"
    and l: "length h = 3"
    and r: "\<forall>t<3. length (h ! t) = 2 \<and> (\<forall>i<2. h ! t ! i \<in> {0, 1, 2})"
    by blast
  from h run_example have e: "h = [[0, 1], [1, 2], [2, 2]]" by simp
  from r have "length (h ! 1) = 2 \<and> (\<forall>i<2. h ! 1 ! i \<in> {0, 1, 2})" by simp
  then have "length (h ! 1) = 2" "h ! 1 ! 0 \<in> {0, 1, 2}" by simp_all
  with a run_example l show ?thesis unfolding e by (intro conjI)
qed

text \<open>
  C8. In a run that returns a history, a Susceptible cell with at least one Infected
  ring neighbour, at a step where \<open>k_infection * infected_neighbors * prevalence \<ge> 1\<close>, is
  Infected at the next step for every sequence of draws in \<open>[0, 1)\<close>: the probability is
  compared unclamped and the comparison raises nothing.
\<close>

theorem infection_certain_when_probability_at_least_one:
  assumes "run_ca_simulation L time_steps I_sir gamma_ca k_infection rand = Inr h"
    and "Suc t < time_steps" "i < L"
    and "h ! t ! i = SUSCEPTIBLE"
    and "0 < infected_neighbors (h ! t) L i"
    and "1 \<le> k_infection * real (infected_neighbors (h ! t) L i) * I_sir ! Suc t"
    and "\<forall>c. 0 \<le> rand c \<and> rand c < 1"
  shows "h ! Suc t ! i = INFECTED"
proof -
  from run_row_step [OF assms(1,2)]
  obtain c where l: "length (h ! t) = L"
    and c: "h ! Suc t = fst (ca_step L (I_sir ! Suc t) gamma_ca k_infection rand (h ! t, c))"
    by blast
  have r: "\<And>c. rand c < 1" using assms(7) by simp
  show ?thesis unfolding c using l assms(3,4,5,6) r by (rule ca_step_forced)
qed

theorem infection_certain_when_probability_at_least_one_witness:
  "run_ca_simulation 2 3 [0, 1, 1] (1 / 2) 1 (\<lambda>n. 0) = Inr [[0, 1], [1, 2], [2, 2]] \<and>
   Suc 0 < 3 \<and> (0::nat) < 2 \<and> [[0, 1], [1, 2], [2, 2]] ! 0 ! 0 = SUSCEPTIBLE \<and>
   infected_neighbors ([[0, 1], [1, 2], [2, 2]] ! 0) 2 0 = 2 \<and>
   (1::real) \<le> 1 * real (infected_neighbors ([[0, 1], [1, 2], [2, 2]] ! 0) 2 0) * [0, 1, 1] ! Suc 0 \<and>
   (\<forall>c::nat. (0::real) \<le> (\<lambda>n. 0) c \<and> (\<lambda>n. 0) c < (1::real)) \<and>
   [[0, 1], [1, 2], [2, 2]] ! Suc 0 ! 0 = INFECTED"
proof -
  have a: "Suc 0 < 3" "(0::nat) < 2" by simp_all
  have b: "[[0, 1], [1, 2], [2, 2]] ! 0 ! 0 = SUSCEPTIBLE" by (simp add: SUSCEPTIBLE_def)
  have n: "infected_neighbors ([[0, 1], [1, 2], [2, 2]] ! 0) 2 0 = 2"
    by (simp add: infected_neighbors_def INFECTED_def)
  have p: "0 < infected_neighbors ([[0, 1], [1, 2], [2, 2]] ! 0) 2 0" unfolding n by simp
  have q: "(1::real) \<le> 1 * real (infected_neighbors ([[0, 1], [1, 2], [2, 2]] ! 0) 2 0) * [0, 1, 1] ! Suc 0"
    unfolding n by simp
  have d: "\<forall>c::nat. (0::real) \<le> (\<lambda>n. 0) c \<and> (\<lambda>n. 0) c < (1::real)" by simp
  from infection_certain_when_probability_at_least_one [OF run_example a b p q d]
  have "[[0, 1], [1, 2], [2, 2]] ! Suc 0 ! 0 = INFECTED" .
  with run_example a b n q d show ?thesis by (intro conjI)
qed

text \<open>
  C9. In a run that returns a history, from one recorded step to the next no cell moves
  to a lower state: a Susceptible cell stays Susceptible or becomes Infected, an Infected
  cell stays Infected or becomes Recovered; hence the number of Susceptible cells does not
  increase.
\<close>

theorem cell_states_nondecreasing:
  assumes "run_ca_simulation L time_steps I_sir gamma_ca k_infection rand = Inr h"
    and "Suc t < time_steps"
  shows "(\<forall>i<L. h ! t ! i \<le> h ! Suc t ! i \<and>
            (h ! t ! i = SUSCEPTIBLE \<longrightarrow> h ! Suc t ! i \<in> {SUSCEPTIBLE, INFECTED}) \<and>
            (h ! t ! i = INFECTED \<longrightarrow> h ! Suc t ! i \<in> {INFECTED, RECOVERED}) \<and>
            (h ! t ! i = RECOVERED \<longrightarrow> h ! Suc t ! i = RECOVERED)) \<and>
         length (filter (\<lambda>x. x = SUSCEPTIBLE) (h ! Suc t)) \<le>
           length (filter (\<lambda>x. x = SUSCEPTIBLE) (h ! t))"
proof -
  from run_row_step [OF assms]
  obtain c where l: "length (h ! t) = L"
    and c: "h ! Suc t = fst (ca_step L (I_sir ! Suc t) gamma_ca k_infection rand (h ! t, c))"
    by blast
  have l': "length (h ! Suc t) = L" using run_row_length [OF assms(1) assms(2)] .
  have cells: "\<forall>i<L. h ! t ! i \<le> h ! Suc t ! i \<and>
            (h ! t ! i = SUSCEPTIBLE \<longrightarrow> h ! Suc t ! i \<in> {SUSCEPTIBLE, INFECTED}) \<and>
            (h ! t ! i = INFECTED \<longrightarrow> h ! Suc t ! i \<in> {INFECTED, RECOVERED}) \<and>
            (h ! t ! i = RECOVERED \<longrightarrow> h ! Suc t ! i = RECOVERED)"
  proof (intro allI impI)
    fix i assume i: "i < L"
    show "h ! t ! i \<le> h ! Suc t ! i \<and>
            (h ! t ! i = SUSCEPTIBLE \<longrightarrow> h ! Suc t ! i \<in> {SUSCEPTIBLE, INFECTED}) \<and>
            (h ! t ! i = INFECTED \<longrightarrow> h ! Suc t ! i \<in> {INFECTED, RECOVERED}) \<and>
            (h ! t ! i = RECOVERED \<longrightarrow> h ! Suc t ! i = RECOVERED)"
      unfolding c
      using ca_step_mono [OF l i, of "I_sir ! Suc t" gamma_ca k_infection rand c]
        ca_step_transition [OF l i, of "I_sir ! Suc t" gamma_ca k_infection rand c]
        ca_step_recovered [OF l i, of "I_sir ! Suc t" gamma_ca k_infection rand c]
      by simp
  qed
  have v: "\<And>i. i < L \<Longrightarrow> h ! t ! i \<in> {SUSCEPTIBLE, INFECTED, RECOVERED}"
    using run_row_values [OF assms(1), of t] assms(2) by simp
  have "\<forall>i<length (h ! t). h ! Suc t ! i = SUSCEPTIBLE \<longrightarrow> h ! t ! i = SUSCEPTIBLE"
  proof (intro allI impI)
    fix i assume i: "i < length (h ! t)" and s: "h ! Suc t ! i = SUSCEPTIBLE"
    from i l have iL: "i < L" by simp
    with cells have "h ! t ! i \<le> h ! Suc t ! i" by blast
    with s v [OF iL] show "h ! t ! i = SUSCEPTIBLE"
      by (auto simp: SUSCEPTIBLE_def INFECTED_def RECOVERED_def)
  qed
  then have "length (filter (\<lambda>x. x = SUSCEPTIBLE) (h ! Suc t)) \<le>
           length (filter (\<lambda>x. x = SUSCEPTIBLE) (h ! t))"
    using l l' by (intro filter_count_mono) simp_all
  with cells show ?thesis by blast
qed

theorem cell_states_nondecreasing_witness:
  "run_ca_simulation 2 3 [0, 1, 1] (1 / 2) 1 (\<lambda>n. 0) = Inr [[0, 1], [1, 2], [2, 2]] \<and>
   Suc 0 < 3 \<and>
   [[0, 1], [1, 2], [2, 2 :: int]] ! 0 ! 0 \<le> [[0, 1], [1, 2], [2, 2]] ! Suc 0 ! 0 \<and>
   length (filter (\<lambda>x. x = SUSCEPTIBLE) ([[0, 1], [1, 2], [2, 2]] ! Suc 0)) \<le>
     length (filter (\<lambda>x. x = SUSCEPTIBLE) ([[0, 1], [1, 2], [2, 2]] ! 0))"
proof -
  have a: "Suc 0 < 3" by simp
  note th = cell_states_nondecreasing [OF run_example a]
  from th [THEN conjunct1, THEN spec, of 0]
  have "[[0, 1], [1, 2], [2, 2 :: int]] ! 0 ! 0 \<le> [[0, 1], [1, 2], [2, 2]] ! Suc 0 ! 0" by simp
  with th [THEN conjunct2] run_example a show ?thesis by (intro conjI)
qed

section \<open>Box-counting dimension: degenerate inputs and active cells\<close>

lemma active_cells_indices_length: "length (active_cells_indices g) \<le> length g"
proof -
  have "length (filter (\<lambda>i. g ! i > 0) [0..<length g]) \<le> length [0..<length g]"
    by (rule length_filter_le)
  then show ?thesis by (simp add: active_cells_indices_def)
qed

lemma active_cells_indices_set:
  "set (active_cells_indices g) = {i. i < length g \<and> 0 < g ! i}"
  by (auto simp: active_cells_indices_def)

lemma calculate_box_dimension_unfold:
  "calculate_box_dimension g =
     (if length (active_cells_indices g) < 2 then Inr 0
      else if box_sizes (length g) = [] then Inr 0
      else if length (valid_indices_of (map (count_boxes g) (box_sizes (length g)))) < 2 then Inr 0
      else fit_slope
             (log_box_sizes_inv (box_sizes (length g))
                (valid_indices_of (map (count_boxes g) (box_sizes (length g)))))
             (log_counts (map (count_boxes g) (box_sizes (length g)))
                (valid_indices_of (map (count_boxes g) (box_sizes (length g))))))"
proof (cases "length (active_cells_indices g) < 2")
  case True
  then show ?thesis by (simp add: calculate_box_dimension_def)
next
  case False
  with active_cells_indices_length [of g] have "length g \<noteq> 0" by linarith
  then have m: "max_power_of (length g) = Inr (log2_floor (length g))"
    by (simp add: max_power_of_def)
  show ?thesis using False
    by (simp add: calculate_box_dimension_def m box_sizes_def Let_def)
qed

lemma linregress_error: "linregress xs ys = Inl e \<Longrightarrow> e = ValueError"
  by (auto simp: linregress_def Let_def split: if_splits)

lemma fit_slope_returns: "\<exists>r. fit_slope xs ys = Inr r"
proof (cases "linregress xs ys")
  case (Inl e)
  then have "e = ValueError" by (rule linregress_error)
  with Inl show ?thesis by (simp add: fit_slope_def)
next
  case (Inr sl)
  then show ?thesis by (cases sl) (simp_all add: fit_slope_def)
qed

lemma fit_slope_failing:
  "linregress xs ys \<in> {Inl ValueError, Inr NaN} \<Longrightarrow> fit_slope xs ys = Inr 0"
  by (auto simp: fit_slope_def)

text \<open>
  C2. \<open>calculate_box_dimension\<close> raises nothing and returns a real number for every grid;
  it returns exactly 0 when fewer than two cells are active, when no box size is generated,
  when fewer than two box sizes have a positive count and when the regression fails or
  yields no number; in particular on an all-Susceptible grid and on a grid with exactly one
  active cell.
\<close>

theorem calculate_box_dimension_total:
  "(\<exists>r. calculate_box_dimension g = Inr r) \<and>
   (length (active_cells_indices g) < 2 \<longrightarrow> calculate_box_dimension g = Inr 0) \<and>
   (box_sizes (length g) = [] \<longrightarrow> calculate_box_dimension g = Inr 0) \<and>
   (length (valid_indices_of (map (count_boxes g) (box_sizes (length g)))) < 2 \<longrightarrow>
      calculate_box_dimension g = Inr 0) \<and>
   (linregress
      (log_box_sizes_inv (box_sizes (length g))
         (valid_indices_of (map (count_boxes g) (box_sizes (length g)))))
      (log_counts (map (count_boxes g) (box_sizes (length g)))
         (valid_indices_of (map (count_boxes g) (box_sizes (length g)))))
      \<in> {Inl ValueError, Inr NaN} \<longrightarrow> calculate_box_dimension g = Inr 0) \<and>
   (g = replicate (length g) SUSCEPTIBLE \<longrightarrow> calculate_box_dimension g = Inr 0) \<and>
   (length (active_cells_indices g) = 1 \<longrightarrow> calculate_box_dimension g = Inr 0)"
proof (intro conjI impI)
  show "\<exists>r. calculate_box_dimension g = Inr r"
    unfolding calculate_box_dimension_unfold using fit_slope_returns by simp
next
  assume "length (active_cells_indices g) < 2"
  then show "calculate_box_dimension g = Inr 0" by (simp add: calculate_box_dimension_unfold)
next
  assume "box_sizes (length g) = []"
  then show "calculate_box_dimension g = Inr 0" by (simp add: calculate_box_dimension_unfold)
next
  assume "length (valid_indices_of (map (count_boxes g) (box_sizes (length g)))) < 2"
  then show "calculate_box_dimension g = Inr 0" by (simp add: calculate_box_dimension_unfold)
next
  assume "linregress
      (log_box_sizes_inv (box_sizes (length g))
         (valid_indices_of (map (count_boxes g) (box_sizes (length g)))))
      (log_counts (map (count_boxes g) (box_sizes (length g)))
         (valid_indices_of (map (count_boxes g) (box_sizes (length g)))))
      \<in> {Inl ValueError, Inr NaN}"
  then show "calculate_box_dimension g = Inr 0"
    unfolding calculate_box_dimension_unfold by (simp only: fit_slope_failing if_cancel)
next
  assume a: "g = replicate (length g) SUSCEPTIBLE"
  have "\<And>i. i < length g \<Longrightarrow> g ! i = 0"
  proof -
    fix i assume "i < length g"
    then have "replicate (length g) SUSCEPTIBLE ! i = SUSCEPTIBLE" by simp
    with a show "g ! i = 0" by (simp add: SUSCEPTIBLE_def)
  qed
  then have "set (active_cells_indices g) = {}" by (auto simp: active_cells_indices_set)
  then show "calculate_box_dimension g = Inr 0" by (simp add: calculate_box_dimension_unfold)
next
  assume "length (active_cells_indices g) = 1"
  then show "calculate_box_dimension g = Inr 0" by (simp add: calculate_box_dimension_unfold)
qed

theorem calculate_box_dimension_total_witness:
  "length (active_cells_indices [0]) < 2 \<and>
   box_sizes (length [0 :: int]) = [] \<and>
   length (valid_indices_of (map (count_boxes [0]) (box_sizes (length [0 :: int])))) < 2 \<and>
   linregress
      (log_box_sizes_inv (box_sizes (length [0 :: int]))
         (valid_indices_of (map (count_boxes [0]) (box_sizes (length [0 :: int])))))
      (log_counts (map (count_boxes [0]) (box_sizes (length [0 :: int])))
         (valid_indices_of (map (count_boxes [0]) (box_sizes (length [0 :: int])))))
      \<in> {Inl ValueError, Inr NaN} \<and>
   [0] = replicate (length [0 :: int]) SUSCEPTIBLE \<and>
   calculate_box_dimension [0] = Inr 0 \<and>
   length (active_cells_indices [0, 0, 1, 0]) = 1 \<and>
   calculate_box_dimension [0, 0, 1, 0] = Inr 0"
proof -
  have a: "length (active_cells_indices [0]) < 2" by code_simp
  have b: "box_sizes (length [0 :: int]) = []" by code_simp
  have c: "length (valid_indices_of (map (count_boxes [0]) (box_sizes (length [0 :: int])))) < 2"
    unfolding b by (simp add: valid_indices_of_def)
  have v: "valid_indices_of (map (count_boxes [0]) (box_sizes (length [0 :: int]))) = []"
    unfolding b by (simp add: valid_indices_of_def)
  have d: "linregress
      (log_box_sizes_inv (box_sizes (length [0 :: int]))
         (valid_indices_of (map (count_boxes [0]) (box_sizes (length [0 :: int])))))
      (log_counts (map (count_boxes [0]) (box_sizes (length [0 :: int])))
         (valid_indices_of (map (count_boxes [0]) (box_sizes (length [0 :: int])))))
      \<in> {Inl ValueError, Inr NaN}"
    unfolding v by (simp add: log_box_sizes_inv_def log_counts_def linregress_def)
  have e: "[0] = replicate (length [0 :: int]) SUSCEPTIBLE" by (simp add: SUSCEPTIBLE_def)
  have f: "length (active_cells_indices [0, 0, 1, 0]) = 1" by code_simp
  note th0 = calculate_box_dimension_total [of "[0]"]
  note th1 = calculate_box_dimension_total [of "[0, 0, 1, 0]"]
  from th0 e have g0: "calculate_box_dimension [0] = Inr 0" by blast
  from th1 f have g1: "calculate_box_dimension [0, 0, 1, 0] = Inr 0" by blast
  from a b c d e g0 f g1 show ?thesis by (intro conjI)
qed

lemma box_has_active:
  "(\<exists>x \<in> set (take b (drop i g)). 0 < x) \<longleftrightarrow>
   (\<exists>j. i \<le> j \<and> j < i + b \<and> j < length g \<and> 0 < g ! j)"
proof
  assume "\<exists>x \<in> set (take b (drop i g)). 0 < x"
  then obtain x where x: "x \<in> set (take b (drop i g))" "0 < x" by blast
  from x(1) obtain m where m: "m < length (take b (drop i g))" "take b (drop i g) ! m = x"
    by (auto simp: in_set_conv_nth)
  from m(1) have mb: "m < b" "i + m < length g" by auto
  with m(2) have "g ! (i + m) = x" by simp
  with mb x(2) have "i \<le> i + m \<and> i + m < i + b \<and> i + m < length g \<and> 0 < g ! (i + m)" by simp
  then show "\<exists>j. i \<le> j \<and> j < i + b \<and> j < length g \<and> 0 < g ! j" by blast
next
  assume "\<exists>j. i \<le> j \<and> j < i + b \<and> j < length g \<and> 0 < g ! j"
  then obtain j where j: "i \<le> j" "j < i + b" "j < length g" "0 < g ! j" by blast
  let ?m = "j - i"
  from j have m: "?m < length (take b (drop i g))" by auto
  from j have "?m < b" "i + ?m = j" by auto
  then have "take b (drop i g) ! ?m = g ! j" using j(3) by simp
  with m have "g ! j \<in> set (take b (drop i g))" by (metis nth_mem)
  with j(4) show "\<exists>x \<in> set (take b (drop i g)). 0 < x" by blast
qed

lemma count_boxes_active:
  assumes "length g1 = length g2"
    and "set (active_cells_indices g1) = set (active_cells_indices g2)"
  shows "count_boxes g1 b = count_boxes g2 b"
proof -
  have act: "\<And>j. j < length g1 \<Longrightarrow> (0 < g1 ! j) = (0 < g2 ! j)"
  proof -
    fix j assume "j < length g1"
    with assms(1) have "(0 < g1 ! j) = (j \<in> set (active_cells_indices g1))"
      "(0 < g2 ! j) = (j \<in> set (active_cells_indices g2))"
      by (simp_all add: active_cells_indices_set)
    with assms(2) show "(0 < g1 ! j) = (0 < g2 ! j)" by simp
  qed
  have "\<And>i. (\<exists>x \<in> set (take b (drop i g1)). 0 < x) = (\<exists>x \<in> set (take b (drop i g2)). 0 < x)"
    unfolding box_has_active using act assms(1) by auto
  then show ?thesis by (simp add: count_boxes_def assms(1))
qed

text \<open>
  C10. Two grids of equal length whose sets of active indices coincide get the same
  result from \<open>calculate_box_dimension\<close>: whether an active cell is Infected or Recovered
  does not matter.
\<close>

theorem calculate_box_dimension_active_only:
  assumes "length g1 = length g2"
    and "set (active_cells_indices g1) = set (active_cells_indices g2)"
  shows "calculate_box_dimension g1 = calculate_box_dimension g2"
proof -
  have "\<And>i. (i < length g1 \<and> 0 < g1 ! i) = (i < length g2 \<and> 0 < g2 ! i)"
    using assms by (auto simp: active_cells_indices_set)
  then have a: "active_cells_indices g1 = active_cells_indices g2"
    unfolding active_cells_indices_def assms(1)
    by (intro filter_cong) (auto simp: assms(1))
  have c: "map (count_boxes g1) (box_sizes (length g2)) = map (count_boxes g2) (box_sizes (length g2))"
    using count_boxes_active [OF assms] by simp
  show ?thesis unfolding calculate_box_dimension_unfold a assms(1) c ..
qed

theorem calculate_box_dimension_active_only_witness:
  "length [1, 2, 0, 1 :: int] = length [2, 1, 0, 2 :: int] \<and>
   set (active_cells_indices [1, 2, 0, 1]) = set (active_cells_indices [2, 1, 0, 2]) \<and>
   calculate_box_dimension [1, 2, 0, 1] = calculate_box_dimension [2, 1, 0, 2]"
proof -
  have a: "length [1, 2, 0, 1 :: int] = length [2, 1, 0, 2 :: int]" by simp
  have "active_cells_indices [1, 2, 0, 1] = [0, 1, 3]" by code_simp
  moreover have "active_cells_indices [2, 1, 0, 2] = [0, 1, 3]" by code_simp
  ultimately have b: "set (active_cells_indices [1, 2, 0, 1]) = set (active_cells_indices [2, 1, 0, 2])"
    by simp
  from calculate_box_dimension_active_only [OF a b] a b show ?thesis by (intro conjI)
qed

section \<open>Box-counting dimension: fully active grids\<close>

lemma sum_list_shift:
  "sum_list (map (\<lambda>x. x + c) xs) = sum_list xs + real (length xs) * (c::real)"
  by (induction xs) (simp_all add: algebra_simps)

lemma mean_shift: "xs \<noteq> [] \<Longrightarrow> mean (map (\<lambda>x. x + c) xs) = mean xs + c"
  by (simp add: mean_def sum_list_shift add_divide_distrib)

lemma zip_shift_products:
  "map (\<lambda>(x, y). (x - a) * (y - (a + c))) (zip xs (map (\<lambda>x. x + c) xs)) =
   map (\<lambda>x. (x - a) * (x - a)) (xs :: real list)"
  by (induction xs) simp_all

lemma squares_sum_zero:
  assumes "sum_list (map (\<lambda>x. (x - a) * (x - a)) xs) = 0" "x \<in> set xs"
  shows "x = (a::real)"
proof -
  have "\<And>v. v \<in> set (map (\<lambda>x. (x - a) * (x - a)) xs) \<Longrightarrow> 0 \<le> v" by auto
  then have "\<forall>v \<in> set (map (\<lambda>x. (x - a) * (x - a)) xs). v = 0"
    using assms(1) by (simp only: sum_list_nonneg_eq_0_iff)
  with assms(2) have "(x - a) * (x - a) = 0" by simp
  then show ?thesis by simp
qed

lemma linregress_shift:
  assumes "xs \<noteq> []" "Max (set xs) \<noteq> Min (set xs)"
  shows "linregress xs (map (\<lambda>x. x + c) xs) = Inr (Slope 1)"
proof -
  let ?ys = "map (\<lambda>x. x + c) xs"
  let ?ss = "sum_list (map (\<lambda>x. (x - mean xs) * (x - mean xs)) xs)"
  have n: "real (length xs) \<noteq> 0" using assms(1) by simp
  have ssn: "?ss \<noteq> 0"
  proof
    assume z: "?ss = 0"
    then have "\<And>x. x \<in> set xs \<Longrightarrow> x = mean xs" by (rule squares_sum_zero)
    moreover have "Max (set xs) \<in> set xs" "Min (set xs) \<in> set xs"
      using assms(1) by (simp_all del: Max_in Min_in add: Max_in Min_in)
    ultimately have "Max (set xs) = Min (set xs)" by metis
    with assms(2) show False by simp
  qed
  have ym: "mean ?ys = mean xs + c" using assms(1) by (rule mean_shift)
  have p: "sum_list (map (\<lambda>(x, y). (x - mean xs) * (y - mean ?ys)) (zip xs ?ys)) = ?ss"
    unfolding ym zip_shift_products ..
  have q: "?ss / real (length xs) \<noteq> 0" using ssn n by simp
  have "linregress xs ?ys =
      Inr (Slope ((?ss / real (length xs)) / (?ss / real (length xs))))"
    using assms q by (simp add: linregress_def Let_def p)
  with q show ?thesis by simp
qed

lemma count_boxes_fully_active:
  assumes "length g = q * b" "0 < b" "\<forall>x \<in> set g. 0 < x"
  shows "count_boxes g b = q"
proof -
  have d: "(q * b + b - 1) div b = q"
  proof -
    have e: "q * b + b - 1 = q * b + (b - 1)" using assms(2) by simp
    have "(q * b + (b - 1)) div b = q + (b - 1) div b" using assms(2) by (simp only: div_mult_self3)
    with assms(2) show ?thesis unfolding e by simp
  qed
  have rs: "range_step (length g) b = map (\<lambda>j. j * b) [0..<q]"
    unfolding range_step_def assms(1) d ..
  have "\<And>i. i \<in> set (range_step (length g) b) \<Longrightarrow> \<exists>x \<in> set (take b (drop i g)). 0 < x"
  proof -
    fix i assume "i \<in> set (range_step (length g) b)"
    then have "i \<in> (\<lambda>j. j * b) ` {0..<q}" unfolding rs by simp
    then obtain j where j: "j < q" "i = j * b" by auto
    then have "j * b < q * b" using assms(2) by simp
    with j assms(1) have il: "i < length g" by simp
    then have "g ! i \<in> set g" by simp
    with assms(3) have "0 < g ! i" by blast
    with il assms(2) have "i \<le> i \<and> i < i + b \<and> i < length g \<and> 0 < g ! i" by simp
    then show "\<exists>x \<in> set (take b (drop i g)). 0 < x" unfolding box_has_active by blast
  qed
  then have "filter (\<lambda>i. \<exists>x \<in> set (take b (drop i g)). 0 < x) (range_step (length g) b) =
             range_step (length g) b"
    by (simp only: filter_id_conv) blast
  then show ?thesis by (simp add: count_boxes_def rs)
qed

lemma active_cells_indices_fully_active:
  "\<forall>x \<in> set g. 0 < x \<Longrightarrow> active_cells_indices g = [0..<length g]"
  by (simp add: active_cells_indices_def filter_id_conv)

lemma box_counts_fully_active:
  assumes "length g = 2 ^ k" "\<forall>x \<in> set g. 0 < x"
  shows "map (count_boxes g) (box_sizes (length g)) = map (\<lambda>i. 2 ^ (k - i)) [0..<k]"
proof -
  have "\<And>i. i < k \<Longrightarrow> count_boxes g (2 ^ i) = 2 ^ (k - i)"
  proof -
    fix i assume "i < k"
    then have "(2::nat) ^ k = 2 ^ (k - i) * 2 ^ i" by (simp add: power_add [symmetric])
    with assms(1) have "length g = 2 ^ (k - i) * 2 ^ i" by simp
    then show "count_boxes g (2 ^ i) = 2 ^ (k - i)"
      using assms(2) by (intro count_boxes_fully_active) simp_all
  qed
  then show ?thesis by (simp add: assms(1) box_sizes_eq log2_floor_power)
qed

lemma valid_indices_all_positive:
  "\<forall>c \<in> set cs. 0 < c \<Longrightarrow> valid_indices_of cs = [0..<length cs]"
  by (simp add: valid_indices_of_def filter_id_conv)

lemma regression_inputs_fully_active:
  "log_box_sizes_inv (map (\<lambda>i. 2 ^ i) [0..<k]) [0..<k] = map (\<lambda>i. - real i * ln 2) [0..<k] \<and>
   log_counts (map (\<lambda>i. 2 ^ (k - i)) [0..<k]) [0..<k] =
     map (\<lambda>x. x + real k * ln 2) (map (\<lambda>i. - real i * ln 2) [0..<k])"
proof
  have "\<And>i. ln (1 / real ((2::nat) ^ i)) = - real i * ln 2"
    by (simp add: ln_div ln_realpow)
  then show "log_box_sizes_inv (map (\<lambda>i. 2 ^ i) [0..<k]) [0..<k] = map (\<lambda>i. - real i * ln 2) [0..<k]"
    by (simp add: log_box_sizes_inv_def)
next
  have "\<And>i. i < k \<Longrightarrow> ln (real ((2::nat) ^ (k - i))) = - real i * ln 2 + real k * ln 2"
    by (simp add: ln_realpow of_nat_diff algebra_simps)
  then show "log_counts (map (\<lambda>i. 2 ^ (k - i)) [0..<k]) [0..<k] =
     map (\<lambda>x. x + real k * ln 2) (map (\<lambda>i. - real i * ln 2) [0..<k])"
    by (simp add: log_counts_def)
qed

lemma log_sizes_not_constant:
  assumes "2 \<le> k"
  shows "Max (set (map (\<lambda>i. - real i * ln 2) [0..<k])) \<noteq>
         Min (set (map (\<lambda>i. - real i * ln 2) [0..<k]))"
proof -
  let ?X = "set (map (\<lambda>i. - real i * ln 2) [0..<k])"
  have f: "finite ?X" by simp
  have a: "(0::real) \<in> ?X" using assms by (auto simp: image_iff intro!: bexI [of _ 0])
  have b: "- ln (2::real) \<in> ?X" using assms by (auto simp: image_iff intro!: bexI [of _ 1])
  from f a have "0 \<le> Max ?X" by (rule Max_ge)
  moreover from f b have "Min ?X \<le> - ln 2" by (rule Min_le)
  moreover have "0 < ln (2::real)" by simp
  ultimately show ?thesis by linarith
qed

lemma fully_active_dimension:
  assumes "2 \<le> k" "length g = 2 ^ k" "\<forall>x \<in> set g. 0 < x"
  shows "calculate_box_dimension g = Inr 1"
proof -
  have a: "\<not> length (active_cells_indices g) < 2"
  proof -
    have "(2::nat) ^ 2 \<le> 2 ^ k" using assms(1) by (intro power_increasing) simp_all
    then show ?thesis using assms(2,3) by (simp add: active_cells_indices_fully_active)
  qed
  have bs: "box_sizes (length g) = map (\<lambda>i. 2 ^ i) [0..<k]"
    by (simp add: assms(2) box_sizes_eq log2_floor_power)
  have bc: "map (count_boxes g) (box_sizes (length g)) = map (\<lambda>i. 2 ^ (k - i)) [0..<k]"
    using assms(2,3) by (rule box_counts_fully_active)
  have vi: "valid_indices_of (map (\<lambda>i. (2::nat) ^ (k - i)) [0..<k]) = [0..<k]"
    using valid_indices_all_positive [of "map (\<lambda>i. (2::nat) ^ (k - i)) [0..<k]"] by simp
  have ne: "map (\<lambda>i. - real i * ln 2) [0..<k] \<noteq> []" using assms(1) by simp
  have "linregress (map (\<lambda>i. - real i * ln 2) [0..<k])
          (map (\<lambda>x. x + real k * ln 2) (map (\<lambda>i. - real i * ln 2) [0..<k])) = Inr (Slope 1)"
    using ne log_sizes_not_constant [OF assms(1)] by (rule linregress_shift)
  then have fs: "fit_slope (map (\<lambda>i. - real i * ln 2) [0..<k])
          (map (\<lambda>x. x + real k * ln 2) (map (\<lambda>i. - real i * ln 2) [0..<k])) = Inr 1"
    by (simp add: fit_slope_def)
  have b: "map (\<lambda>i. (2::nat) ^ i) [0..<k] \<noteq> []" using assms(1) by simp
  have c: "\<not> length [0..<k] < 2" using assms(1) by simp
  note bc' = bc [unfolded bs]
  note ri = regression_inputs_fully_active [of k]
  show ?thesis
    unfolding calculate_box_dimension_unfold
    using a b c fs
    by (simp only: bs bc' vi ri [THEN conjunct1] ri [THEN conjunct2] if_False)
qed

lemma valid_indices_of_length: "length (valid_indices_of cs) \<le> length cs"
proof -
  have "length (filter (\<lambda>i. cs ! i > 0) [0..<length cs]) \<le> length [0..<length cs]"
    by (rule length_filter_le)
  then show ?thesis by (simp add: valid_indices_of_def)
qed

lemma short_power_of_two_dimension:
  assumes "k < 2" "length g = 2 ^ k"
  shows "calculate_box_dimension g = Inr 0"
proof -
  have "length (box_sizes (length g)) = k" by (simp add: assms(2) box_sizes_eq log2_floor_power)
  with valid_indices_of_length [of "map (count_boxes g) (box_sizes (length g))"] assms(1)
  have "length (valid_indices_of (map (count_boxes g) (box_sizes (length g)))) < 2" by simp
  then show ?thesis by (simp add: calculate_box_dimension_unfold)
qed

text \<open>
  C3 (amended). For a fully active grid (every cell Infected or Recovered) whose length
  is a power of two \<open>2 ^ k\<close> with \<open>k \<ge> 2\<close>, \<open>calculate_box_dimension\<close> returns 1 over exact
  reals, hence a value within 0.2 of 1; for the lengths 1 and 2 it returns 0.
\<close>

theorem fully_active_power_of_two_dimension:
  assumes "length g = 2 ^ k" "set g \<subseteq> {INFECTED, RECOVERED}"
  shows "(2 \<le> k \<longrightarrow> (\<exists>r. calculate_box_dimension g = Inr r \<and> r = 1 \<and> \<bar>r - 1\<bar> \<le> 2 / 10)) \<and>
         (k < 2 \<longrightarrow> calculate_box_dimension g = Inr 0)"
proof (intro conjI impI)
  assume k: "2 \<le> k"
  have "\<forall>x \<in> set g. 0 < x" using assms(2) by (auto simp: INFECTED_def RECOVERED_def)
  with k assms(1) have "calculate_box_dimension g = Inr 1" by (rule fully_active_dimension)
  then show "\<exists>r. calculate_box_dimension g = Inr r \<and> r = 1 \<and> \<bar>r - 1\<bar> \<le> 2 / 10" by simp
next
  assume "k < 2"
  then show "calculate_box_dimension g = Inr 0" using assms(1) by (rule short_power_of_two_dimension)
qed

theorem fully_active_power_of_two_dimension_witness:
  "length [1, 2, 2, 1 :: int] = 2 ^ 2 \<and> set [1, 2, 2, 1] \<subseteq> {INFECTED, RECOVERED} \<and> (2::nat) \<le> 2 \<and>
   calculate_box_dimension [1, 2, 2, 1] = Inr 1 \<and>
   length [1, 2 :: int] = 2 ^ 1 \<and> set [1, 2] \<subseteq> {INFECTED, RECOVERED} \<and> (1::nat) < 2 \<and>
   calculate_box_dimension [1, 2] = Inr 0"
proof -
  have a: "length [1, 2, 2, 1 :: int] = 2 ^ 2" "set [1, 2, 2, 1] \<subseteq> {INFECTED, RECOVERED}"
    by (simp_all add: INFECTED_def RECOVERED_def)
  have b: "length [1, 2 :: int] = 2 ^ 1" "set [1, 2] \<subseteq> {INFECTED, RECOVERED}"
    by (simp_all add: INFECTED_def RECOVERED_def)
  have c: "(2::nat) \<le> 2" "(1::nat) < 2" by simp_all
  from fully_active_power_of_two_dimension [OF a] c(1)
  have d: "calculate_box_dimension [1, 2, 2, 1] = Inr 1" by blast
  from fully_active_power_of_two_dimension [OF b] c(2)
  have e: "calculate_box_dimension [1, 2] = Inr 0" by blast
  from a b c d e show ?thesis by (intro conjI)
qed

text \<open>
  C3 as stated fails for the lengths 1 and 2: the fully active grid of length \<open>2 = 2 ^ 1\<close>
  has a single box size, and the result is 0.
\<close>

theorem fully_active_short_counterexample:
  "length [INFECTED, RECOVERED] = 2 ^ 1 \<and>
   calculate_box_dimension [INFECTED, RECOVERED] = Inr 0 \<and>
   \<not> \<bar>(0::real) - 1\<bar> \<le> 2 / 10"
proof -
  have a: "active_cells_indices [INFECTED, RECOVERED] = [0, 1]" by code_simp
  have b: "box_sizes (length [INFECTED, RECOVERED]) = [1]" by code_simp
  have c: "valid_indices_of (map (count_boxes [INFECTED, RECOVERED]) [1]) = [0]" by code_simp
  have "calculate_box_dimension [INFECTED, RECOVERED] = Inr 0"
    unfolding calculate_box_dimension_unfold a b c by simp
  then show ?thesis by simp
qed

end
